theory Spec2Isabelle
  imports Complex_Main "HOL-Library.Word" "HOL-Library.Log_Nat"
begin

section \<open>The upload-progress subsystem of admin/admin.js\<close>

text \<open>
  The development embeds the functions \<^verbatim>\<open>formatBytes\<close>, \<^verbatim>\<open>shortFileName\<close>,
  \<^verbatim>\<open>animateUploadProgress\<close>, \<^verbatim>\<open>uploadProductFile\<close> and the upload chain of
  \<^verbatim>\<open>saveProduct\<close> (lines 453 to 712 of admin/admin.js).

  Conventions of the embedding.
  \<^item> A JavaScript number is a real (or a natural, where the value is a byte count, a
    clock reading or a length, all below \<open>2^53\<close>). The progress handler's divisions and
    its multiplication are rounded to IEEE 754 doubles as the code's are (\<open>to_double\<close>).
    \<^verbatim>\<open>formatBytes\<close> divides by a power of two, which is exact, and the smoothing step
    of \<^verbatim>\<open>animateUploadProgress\<close> is taken in exact arithmetic.
  \<^item> A JavaScript string is the list of its UTF-16 code units, so \<^verbatim>\<open>.length\<close> is
    \<open>length\<close> and \<^verbatim>\<open>.slice\<close> is \<open>take\<close>/\<open>drop\<close>.
  \<^item> The module-level variables and the closure variables of the transfer in flight are
    fields of one record that every handler takes and returns.
  \<^item> The browser is the environment: what the transport delivers for a transfer
    (progress events, animation frames, the final load or error) is an input. Every
    transfer ends with a load or an error; the script sets no timeout and never aborts.
\<close>

subsection \<open>Strings\<close>

type_synonym jstring = "16 word list"

definition ascii :: "string \<Rightarrow> jstring" where
  "ascii s = map of_char s"

text \<open>Code units used by the source's literals.\<close>

definition dot :: "16 word" where "dot = 0x2E"
definition space :: "16 word" where "space = 0x20"
definition ellipsis :: "16 word" where "ellipsis = 0x2026"
definition em_dash :: "16 word" where "em_dash = 0x2014"

text \<open>The decimal digits of a natural number, as \<^verbatim>\<open>String(n)\<close> gives them.\<close>

definition digit :: "nat \<Rightarrow> 16 word" where
  "digit d = of_nat (48 + d)"

fun digits10 :: "nat \<Rightarrow> jstring" where
  "digits10 n = (if n < 10 then [digit n] else digits10 (n div 10) @ [digit (n mod 10)])"

declare digits10.simps [simp del]

text \<open>\<^verbatim>\<open>Math.round(x)\<close> is \<open>floor(x + 0.5)\<close>: ties go up.\<close>

definition Math_round :: "real \<Rightarrow> int" where
  "Math_round x = \<lfloor>x + 1 / 2\<rfloor>"

subsection \<open>Doubles\<close>

text \<open>
  The result of an arithmetic operation on doubles is the exact result rounded to the
  nearest double, ties to the even significand. A double has a 53-bit significand; with
  \<open>e\<close> the binary exponent of \<open>x\<close> (not below \<open>-1022\<close>, where the subnormal numbers
  begin), its neighbours are the multiples of \<open>2^(e - 52)\<close>. Overflow to infinity,
  beyond \<open>2^1024\<close>, is not modelled.
\<close>

definition pow2 :: "int \<Rightarrow> real" where
  "pow2 e = (if 0 \<le> e then 2 ^ nat e else 1 / 2 ^ nat (- e))"

definition round_even :: "real \<Rightarrow> int" where
  "round_even y =
     (let n = \<lfloor>y\<rfloor>; r = y - of_int n
      in if r < 1 / 2 then n else if r > 1 / 2 then n + 1 else if even n then n else n + 1)"

definition binade :: "real \<Rightarrow> int" where
  "binade x = max \<lfloor>log 2 \<bar>x\<bar>\<rfloor> (- 1022)"

definition to_double :: "real \<Rightarrow> real" where
  "to_double x =
     (if x = 0 then 0
      else of_int (round_even (x / pow2 (binade x - 52))) * pow2 (binade x - 52))"

text \<open>
  \<^verbatim>\<open>x.toFixed(f)\<close> for \<open>0 \<le> x < 10^21\<close>, after ECMA-262: \<open>n\<close> is the integer
  nearest to \<open>x * 10^f\<close> (the larger one on a tie), \<open>m\<close> its decimal digits, padded
  with zeros on the left to \<open>f + 1\<close> characters, and a point goes before the last \<open>f\<close>.
\<close>

definition toFixed :: "real \<Rightarrow> nat \<Rightarrow> jstring" where
  "toFixed x f =
     (let n = nat (Math_round (x * 10 ^ f));
          m0 = digits10 n;
          m = (if f \<noteq> 0 \<and> length m0 \<le> f then replicate (f + 1 - length m0) (digit 0) @ m0 else m0);
          k = length m
      in if f = 0 then m else take (k - f) m @ [dot] @ drop (k - f) m)"

text \<open>\<^verbatim>\<open>s.replace(/\.0$/, '')\<close>: a final ".0" is removed.\<close>

definition replace_dot0 :: "jstring \<Rightarrow> jstring" where
  "replace_dot0 s =
     (if 2 \<le> length s \<and> drop (length s - 2) s = [dot, digit 0] then take (length s - 2) s else s)"

subsection \<open>formatBytes\<close>

text \<open>The table \<^verbatim>\<open>sizes\<close>: the Cyrillic unit names for B, KB, MB and GB.\<close>

definition sizes :: "jstring list" where
  "sizes = [[0x411], [0x41A, 0x411], [0x41C, 0x411], [0x413, 0x411]]"

text \<open>
  An array read converted to a string by \<^verbatim>\<open>+\<close>: past the end the read gives
  \<^verbatim>\<open>undefined\<close>, which concatenates as the nine letters of that word.
\<close>

definition sizes_at :: "nat \<Rightarrow> jstring option" where
  "sizes_at i = (if i < length sizes then Some (sizes ! i) else None)"

definition to_string :: "jstring option \<Rightarrow> jstring" where
  "to_string v = (case v of None \<Rightarrow> ascii ''undefined'' | Some s \<Rightarrow> s)"

text \<open>
  The unit index \<^verbatim>\<open>Math.floor(Math.log(bytes) / Math.log(k))\<close>. Byte counts are
  natural numbers, and for \<open>bytes \<ge> 1\<close> the floor is not negative.
\<close>

definition unit_index :: "nat \<Rightarrow> nat" where
  "unit_index bytes = nat \<lfloor>ln (real bytes) / ln (real (1024::nat))\<rfloor>"

definition formatBytes :: "nat \<Rightarrow> jstring" where
  "formatBytes bytes =
     (if bytes = 0 then ascii ''0 '' @ [0x411]
      else
        let k = 1024 :: nat;
            i = unit_index bytes;
            v = real bytes / real (k ^ i)
        in (if i = 0 then toFixed v 0 else replace_dot0 (toFixed v 1))
           @ [space] @ to_string (sizes_at i))"

subsection \<open>shortFileName\<close>

text \<open>\<^verbatim>\<open>s.lastIndexOf(c)\<close>: the last index holding \<open>c\<close>, or \<open>-1\<close>.\<close>

fun lastIndexFrom :: "'a list \<Rightarrow> 'a \<Rightarrow> int \<Rightarrow> int \<Rightarrow> int" where
  "lastIndexFrom [] c i found = found"
| "lastIndexFrom (x # xs) c i found = lastIndexFrom xs c (i + 1) (if x = c then i else found)"

definition lastIndexOf :: "'a list \<Rightarrow> 'a \<Rightarrow> int" where
  "lastIndexOf s c = lastIndexFrom s c 0 (- 1)"

text \<open>
  The limit is a length; \<^verbatim>\<open>maxLen || 42\<close> replaces an omitted limit and the limit 0
  by 42.
\<close>

definition limit :: "nat option \<Rightarrow> nat" where
  "limit maxLen0 = (case maxLen0 of None \<Rightarrow> 42 | Some m \<Rightarrow> if m = 0 then 42 else m)"

definition shortFileName :: "jstring \<Rightarrow> nat option \<Rightarrow> jstring" where
  "shortFileName name0 maxLen0 =
     (let maxLen = limit maxLen0
      in if name0 = [] \<or> length name0 \<le> maxLen then name0
         else
           let lastDot = lastIndexOf name0 dot;
               split = (lastDot > 0 \<and> lastDot > int (length name0) - 6);
               ext = (if split then drop (nat lastDot) name0 else []);
               name = (if split then take (nat lastDot) name0 else name0);
               keep = int maxLen - int (length ext) - 1
           in if keep < 8 then take (maxLen - 1) name @ [ellipsis]
              else take (nat keep) name @ [ellipsis] @ ext)"

subsection \<open>The upload state\<close>

text \<open>
  The object \<^verbatim>\<open>uploadState\<close>, and with it the rest of what the handlers read and
  write: whether an animation frame is requested (\<^verbatim>\<open>uploadProgressRafId != null\<close>),
  the closure variables \<^verbatim>\<open>lastLoaded\<close> and \<^verbatim>\<open>lastTime\<close> of the transfer in flight,
  the progress bar (whether the element exists, whether its wrapper is shown, the
  percentage of its width), and the trace of what the upload chain has done.
\<close>

datatype event = Dispatch bool | OnSuccess | OnError

record uploadState =
  active :: bool
  realLoaded :: real
  realTotal :: real
  realPercent :: real
  realSpeedStr :: jstring
  displayedLoaded :: real
  displayedPercent :: real
  label :: jstring
  total :: real
  indeterminate :: bool

record page = uploadState +
  uploadProgressRafId :: bool
  lastLoaded :: real
  lastTime :: nat
  fill :: bool
  wrapShown :: bool
  fillWidth :: real
  trace :: "event list"

text \<open>
  \<^verbatim>\<open>showUploadProgress(show, percent, ...)\<close>, as far as the bar goes: the wrapper is
  shown or hidden, and a call without a percentage puts the bar in its indeterminate
  look, 40 percent wide.
\<close>

definition showUploadProgress :: "bool \<Rightarrow> real option \<Rightarrow> page \<Rightarrow> page" where
  "showUploadProgress show percent s =
     (let s1 = s\<lparr>wrapShown := show\<rparr>
      in if fill s \<and> percent \<noteq> None then s1
         else if fill s then s1\<lparr>fillWidth := 40\<rparr>
         else s1)"

subsection \<open>animateUploadProgress\<close>

definition animateUploadProgress :: "page \<Rightarrow> page" where
  "animateUploadProgress s =
     (if \<not> active s \<or> \<not> fill s then s\<lparr>uploadProgressRafId := False\<rparr>
      else if indeterminate s then s\<lparr>uploadProgressRafId := True\<rparr>
      else
        let step = 8 / 100;
            dl = displayedLoaded s + (realLoaded s - displayedLoaded s) * step;
            dp = displayedPercent s + (realPercent s - displayedPercent s) * step;
            dp' = (if dp > 995 / 10 then realPercent s else dp);
            dl' = (if dl > realTotal s - 100 then realLoaded s else dl);
            pctShow = min (999 / 10) (real_of_int (Math_round (dp' * 10)) / 10)
        in s\<lparr>displayedLoaded := dl', displayedPercent := dp', fillWidth := pctShow,
              uploadProgressRafId := \<not> (dp' \<ge> 995 / 10 \<and> realPercent s \<ge> 995 / 10)\<rparr>)"

subsection \<open>uploadProductFile\<close>

record upload_file =
  file_name :: jstring
  file_size :: nat

text \<open>
  What the browser delivers while a transfer is in flight, and how the transfer ends.
  A progress event carries \<^verbatim>\<open>e.loaded\<close>, \<^verbatim>\<open>e.total\<close>, \<^verbatim>\<open>e.lengthComputable\<close> and the
  clock \<^verbatim>\<open>Date.now()\<close> read by its handler. A load carries \<^verbatim>\<open>xhr.status\<close> and
  whether \<^verbatim>\<open>JSON.parse(xhr.responseText)\<close> returns (rather than throws).
\<close>

datatype tick = Progress nat nat bool nat | Frame

datatype outcome = Load int bool | NetError

record transfer =
  started :: nat
  ticks :: "tick list"
  outcome :: outcome

text \<open>The part of \<^verbatim>\<open>uploadProductFile\<close> that runs at once, up to \<^verbatim>\<open>xhr.send\<close>.\<close>

definition begin_upload :: "upload_file \<Rightarrow> bool \<Rightarrow> nat \<Rightarrow> page \<Rightarrow> page" where
  "begin_upload f isVideo now s =
     (let kind = (if isVideo then [0x412, 0x438, 0x434, 0x435, 0x43E] else [0x424, 0x43E, 0x442, 0x43E]);
          fileName = (if file_name f = [] then [0x444, 0x430, 0x439, 0x43B] else file_name f);
          fileSize = file_size f;
          s1 = s\<lparr>lastLoaded := 0, lastTime := now\<rparr>;
          s2 = (if fill s1 then s1\<lparr>fillWidth := 0\<rparr> else s1);
          s3 = s2\<lparr>active := True, realLoaded := 0, realTotal := real fileSize, realPercent := 0,
                  realSpeedStr := [em_dash], displayedLoaded := 0, displayedPercent := 0,
                  label := kind @ ascii '': '' @ shortFileName fileName None,
                  total := real fileSize, indeterminate := (fileSize = 0)\<rparr>;
          s4 = showUploadProgress True (Some 0) s3
      in s4\<lparr>uploadProgressRafId := True, trace := trace s4 @ [Dispatch isVideo]\<rparr>)"

text \<open>
  The listener of \<^verbatim>\<open>xhr.upload\<close>'s progress event. The differences are differences of
  integers and exact; each division and the multiplication by 1000 give the nearest double,
  and the literal \<^verbatim>\<open>0.05\<close> is the double nearest to 5/100.
\<close>

definition on_progress :: "nat \<Rightarrow> nat \<Rightarrow> bool \<Rightarrow> nat \<Rightarrow> page \<Rightarrow> page" where
  "on_progress loaded tot lengthComputable now s =
     (let elapsed = to_double ((real now - real (lastTime s)) / 1000);
          speed = (if elapsed > to_double (5 / 100)
                   then to_double ((real loaded - lastLoaded s) / elapsed) else 0);
          speedStr = (if speed > 0 then formatBytes (nat (Math_round speed)) @ [0x2F, 0x441]
                      else [em_dash]);
          s1 = s\<lparr>lastLoaded := real loaded, lastTime := now\<rparr>
      in if lengthComputable \<and> tot > 0
         then s1\<lparr>indeterminate := False, realLoaded := real loaded, realTotal := real tot,
                 realPercent :=
                   min 99 (to_double (real_of_int (Math_round
                     (to_double (to_double (real loaded / real tot) * 1000))) / 10)),
                 realSpeedStr := speedStr\<rparr>
         else s1\<lparr>realLoaded := real loaded, realSpeedStr := speedStr\<rparr>)"

text \<open>A requested animation frame runs \<^verbatim>\<open>animateUploadProgress\<close>; a cancelled one does not.\<close>

fun on_tick :: "tick \<Rightarrow> page \<Rightarrow> page" where
  "on_tick (Progress loaded tot lengthComputable now) s = on_progress loaded tot lengthComputable now s"
| "on_tick Frame s = (if uploadProgressRafId s then animateUploadProgress s else s)"

text \<open>\<^verbatim>\<open>if (onError) onError();\<close>\<close>

definition call_onError :: "(page \<Rightarrow> page) option \<Rightarrow> page \<Rightarrow> page" where
  "call_onError onError s = (case onError of None \<Rightarrow> s | Some h \<Rightarrow> h s)"

text \<open>
  \<^verbatim>\<open>xhr.onload\<close>. The completion block at its top runs for every status. On a success
  status the rest runs from a timer 400 ms later; nothing of the chain can run in between,
  so the model continues in place. There \<^verbatim>\<open>JSON.parse\<close> either returns, and \<^verbatim>\<open>cb\<close> is
  called, or throws, and the \<^verbatim>\<open>catch\<close> block calls \<^verbatim>\<open>onError\<close> and then \<^verbatim>\<open>cb\<close>.
  Notifications are not part of the state, the callbacks themselves are taken not to throw,
  and the timer that hides the bar 1.5 s after a successful load is left out.
\<close>

definition xhr_onload ::
  "nat \<Rightarrow> int \<Rightarrow> bool \<Rightarrow> (page \<Rightarrow> page) \<Rightarrow> (page \<Rightarrow> page) option \<Rightarrow> page \<Rightarrow> page" where
  "xhr_onload fileSize status parses cb onError s =
     (let s1 = s\<lparr>active := False, uploadProgressRafId := False, realPercent := 100,
                 realLoaded := real fileSize, displayedPercent := 100,
                 displayedLoaded := real fileSize\<rparr>;
          s2 = (if fill s1 then s1\<lparr>fillWidth := 100\<rparr> else s1);
          s3 = showUploadProgress True (Some 100) s2
      in if 200 \<le> status \<and> status < 300
         then (if parses then cb s3
               else cb (call_onError onError (showUploadProgress False None s3)))
         else call_onError onError (showUploadProgress False None s3))"

text \<open>\<^verbatim>\<open>xhr.onerror\<close>.\<close>

definition xhr_onerror :: "(page \<Rightarrow> page) option \<Rightarrow> page \<Rightarrow> page" where
  "xhr_onerror onError s =
     call_onError onError
       (showUploadProgress False None (s\<lparr>active := False, uploadProgressRafId := False\<rparr>))"

definition uploadProductFile ::
  "upload_file \<Rightarrow> bool \<Rightarrow> transfer \<Rightarrow> (page \<Rightarrow> page) \<Rightarrow> (page \<Rightarrow> page) option \<Rightarrow> page \<Rightarrow> page" where
  "uploadProductFile f isVideo t cb onError s =
     (let s1 = fold on_tick (ticks t) (begin_upload f isVideo (started t) s)
      in case outcome t of
           Load status parses \<Rightarrow> xhr_onload (file_size f) status parses cb onError s1
         | NetError \<Rightarrow> xhr_onerror onError s1)"

subsection \<open>The upload chain of saveProduct\<close>

text \<open>
  \<^verbatim>\<open>done\<close> is the chain's success callback and \<^verbatim>\<open>setBusy.bind(null, false)\<close> its
  error callback; the trace records each call. Hiding the bar is the one effect of
  \<^verbatim>\<open>done\<close> on the state modelled here.
\<close>

definition done_cb :: "page \<Rightarrow> page" where
  "done_cb s = (let s1 = showUploadProgress False None s in s1\<lparr>trace := trace s1 @ [OnSuccess]\<rparr>)"

definition setBusy_false :: "page \<Rightarrow> page" where
  "setBusy_false s = s\<lparr>trace := trace s @ [OnError]\<rparr>"

text \<open>
  Lines 686 to 706 of \<^verbatim>\<open>saveProduct\<close>. A selected file comes with what the transport
  will do with its transfer.
\<close>

definition runJob :: "(upload_file \<times> transfer) option \<Rightarrow> (upload_file \<times> transfer) option \<Rightarrow> page \<Rightarrow> page" where
  "runJob imageFile videoFile s =
     (case imageFile of
        Some (fi, ti) \<Rightarrow>
          uploadProductFile fi False ti
            (\<lambda>s'. case videoFile of
                     Some (fv, tv) \<Rightarrow> uploadProductFile fv True tv done_cb (Some setBusy_false) s'
                   | None \<Rightarrow> done_cb s')
            (Some setBusy_false) s
      | None \<Rightarrow>
          (case videoFile of
             Some (fv, tv) \<Rightarrow> uploadProductFile fv True tv done_cb (Some setBusy_false) s
           | None \<Rightarrow> done_cb s))"

subsection \<open>Notions used in the statements\<close>




text \<open>
  The number that \<^verbatim>\<open>formatBytes\<close> is specified to print: no decimals on the first
  tier; on the others the value scaled by \<open>1024 ^ i\<close> and rounded to one decimal, a
  zero decimal left out.
\<close>

definition number_part :: "nat \<Rightarrow> jstring" where
  "number_part n =
     (let i = unit_index n; m = nat (Math_round (real n / real ((1024::nat) ^ i) * 10))
      in if i = 0 then digits10 n
         else if m mod 10 = 0 then digits10 (m div 10)
         else digits10 (m div 10) @ [dot, digit (m mod 10)])"

text \<open>
  The page as the script leaves it when it is loaded: \<^verbatim>\<open>uploadState\<close> as initialised,
  no frame requested, the bar present and hidden, nothing done yet.
\<close>

definition page0 :: page where
  "page0 = \<lparr>active = False, realLoaded = 0, realTotal = 0, realPercent = 0,
     realSpeedStr = [em_dash], displayedLoaded = 0, displayedPercent = 0, label = [],
     total = 0, indeterminate = False, uploadProgressRafId = False, lastLoaded = 0,
     lastTime = 0, fill = True, wrapShown = False, fillWidth = 0, trace = []\<rparr>"

text \<open>
  The states one transfer goes through: after \<^verbatim>\<open>uploadProductFile\<close> has started it,
  after each progress event and animation frame, and after its load or error handler
  (here with callbacks that do nothing, so that the state is the handler's own).
\<close>

definition finish :: "outcome \<Rightarrow> nat \<Rightarrow> page \<Rightarrow> page" where
  "finish out fileSize s =
     (case out of
        Load status parses \<Rightarrow> xhr_onload fileSize status parses (\<lambda>x. x) None s
      | NetError \<Rightarrow> xhr_onerror None s)"

fun run_states :: "tick list \<Rightarrow> outcome \<Rightarrow> nat \<Rightarrow> page \<Rightarrow> page list" where
  "run_states [] out fileSize s = [s, finish out fileSize s]"
| "run_states (t # ts) out fileSize s = s # run_states ts out fileSize (on_tick t s)"

definition transfer_states :: "upload_file \<Rightarrow> bool \<Rightarrow> transfer \<Rightarrow> page \<Rightarrow> page list" where
  "transfer_states f isVideo t s =
     run_states (ticks t) (outcome t) (file_size f) (begin_upload f isVideo (started t) s)"

text \<open>
  A response with a success status, and one with a success status whose body does not
  parse. For the latter the load handler calls \<^verbatim>\<open>onError\<close> and then \<^verbatim>\<open>cb\<close>.
\<close>

definition accepted :: "outcome \<Rightarrow> bool" where
  "accepted out = (case out of Load status parses \<Rightarrow> 200 \<le> status \<and> status < 300 | NetError \<Rightarrow> False)"

definition malformed :: "outcome \<Rightarrow> bool" where
  "malformed out =
     (case out of Load status parses \<Rightarrow> 200 \<le> status \<and> status < 300 \<and> \<not> parses | NetError \<Rightarrow> False)"

definition gets_malformed :: "(upload_file \<times> transfer) option \<Rightarrow> bool" where
  "gets_malformed c = (case c of None \<Rightarrow> False | Some (f, t) \<Rightarrow> malformed (outcome t))"

definition gets_accepted :: "(upload_file \<times> transfer) option \<Rightarrow> bool" where
  "gets_accepted c = (case c of None \<Rightarrow> False | Some (f, t) \<Rightarrow> accepted (outcome t))"

text \<open>What one job adds to the trace, and the transfers it dispatches, in order.\<close>

definition job_log :: "(upload_file \<times> transfer) option \<Rightarrow> (upload_file \<times> transfer) option \<Rightarrow> page \<Rightarrow> event list" where
  "job_log imageFile videoFile s = drop (length (trace s)) (trace (runJob imageFile videoFile s))"

definition dispatches :: "event list \<Rightarrow> bool list" where
  "dispatches evs = concat (map (\<lambda>e. case e of Dispatch isVideo \<Rightarrow> [isVideo] | _ \<Rightarrow> []) evs)"

text \<open>
  What one transfer adds to the trace when its success callback adds \<open>rest\<close> and its
  error callback is the chain's; and what the whole chain adds. Both are derived from the
  handlers below (\<open>trace_uploadProductFile\<close>, \<open>trace_runJob\<close>).
\<close>

definition up_events :: "bool \<Rightarrow> outcome \<Rightarrow> event list \<Rightarrow> event list" where
  "up_events isVideo out rest =
     Dispatch isVideo #
       (case out of
          NetError \<Rightarrow> [OnError]
        | Load status parses \<Rightarrow>
            if 200 \<le> status \<and> status < 300 then (if parses then rest else OnError # rest)
            else [OnError])"

definition job_events :: "(upload_file \<times> transfer) option \<Rightarrow> (upload_file \<times> transfer) option \<Rightarrow> event list" where
  "job_events imageFile videoFile =
     (let after = (case videoFile of
                     Some (fv, tv) \<Rightarrow> up_events True (outcome tv) [OnSuccess]
                   | None \<Rightarrow> [OnSuccess])
      in case imageFile of
           Some (fi, ti) \<Rightarrow> up_events False (outcome ti) after
         | None \<Rightarrow> after)"

text \<open>
  The number of dispatched transfers whose response has a success status and a body that
  does not parse; and a transfer that succeeds outright.
\<close>

definition malformed_dispatched :: "(upload_file \<times> transfer) option \<Rightarrow> (upload_file \<times> transfer) option \<Rightarrow> nat" where
  "malformed_dispatched imageFile videoFile =
     (if gets_malformed imageFile then 1 else 0)
     + (if (imageFile = None \<or> gets_accepted imageFile) \<and> gets_malformed videoFile then 1 else 0)"

definition gets_success :: "(upload_file \<times> transfer) option \<Rightarrow> bool" where
  "gets_success c = (case c of None \<Rightarrow> False | Some (f, t) \<Rightarrow> accepted (outcome t) \<and> \<not> malformed (outcome t))"

text \<open>Sample files and transfers for the concrete instances below.\<close>

definition png :: upload_file where
  "png = \<lparr>file_name = ascii ''a.png'', file_size = 100\<rparr>"

definition mp4 :: upload_file where
  "mp4 = \<lparr>file_name = ascii ''b.mp4'', file_size = 5000\<rparr>"

definition served :: "int \<Rightarrow> bool \<Rightarrow> transfer" where
  "served status parses = \<lparr>started = 0, ticks = [], outcome = Load status parses\<rparr>"

text \<open>
  Invariants of a transfer: both percentages within 0..100; the displayed percentage not
  above the raw one.
\<close>

definition bounded :: "page \<Rightarrow> bool" where
  "bounded s = (0 \<le> displayedPercent s \<and> displayedPercent s \<le> 100 \<and> 0 \<le> realPercent s \<and> realPercent s \<le> 100)"

definition lags :: "page \<Rightarrow> bool" where
  "lags s = (displayedPercent s \<le> realPercent s)"

text \<open>A transfer with two progress events, a frame after each, and a successful load.\<close>

definition two_steps :: transfer where
  "two_steps = \<lparr>started = 0, ticks = [Progress 500 1000 True 1000, Frame, Progress 1000 1000 True 2000, Frame],
     outcome = Load 200 True\<rparr>"

text \<open>
  The invariant of a transfer before its load handler: both percentages within 0..99.
\<close>

definition raw_capped :: "page \<Rightarrow> bool" where
  "raw_capped s = (0 \<le> realPercent s \<and> realPercent s \<le> 99 \<and> 0 \<le> displayedPercent s \<and> displayedPercent s \<le> 99)"

text \<open>A transfer that makes some progress and then loses the connection.\<close>

definition cut_off :: transfer where
  "cut_off = \<lparr>started = 0, ticks = [Progress 1000 1000 True 1000, Frame], outcome = NetError\<rparr>"


text \<open>
  The state one second into a transfer of the sample image, after a first progress event
  of 2048 bytes.
\<close>

definition first_second :: page where
  "first_second = on_progress 2048 4096 True 1000 (begin_upload png False 0 page0)"

section \<open>Doubles\<close>

lemma pow2_powr: "pow2 e = 2 powr (of_int e)"
  by (simp add: pow2_def powr_int)

lemma pow2_pos [simp]: "0 < pow2 e"
  by (simp add: pow2_powr)

lemma pow2_nonneg [simp]: "0 \<le> pow2 e"
  by (rule less_imp_le) (rule pow2_pos)

lemma pow2_mono: "a \<le> b \<Longrightarrow> pow2 a \<le> pow2 b"
  by (simp add: pow2_powr)

lemma pow2_add: "pow2 (a + b) = pow2 a * pow2 b"
  by (simp add: pow2_powr powr_add)

lemma binade_eq:
  assumes "pow2 e \<le> \<bar>x\<bar>" and "\<bar>x\<bar> < pow2 (e + 1)" and "- 1022 \<le> e"
  shows "binade x = e"
proof -
  have pos: "0 < \<bar>x\<bar>" using assms(1) pow2_pos [of e] by linarith
  have "\<lfloor>log 2 \<bar>x\<bar>\<rfloor> = e"
    using assms(1,2) by (simp add: floor_log_eq_powr_iff [OF pos] pow2_powr)
  then show ?thesis using assms(3) by (simp add: binade_def)
qed

lemma binade_upper: "x \<noteq> 0 \<Longrightarrow> \<bar>x\<bar> < pow2 (binade x + 1)"
proof -
  assume "x \<noteq> 0"
  then have pos: "0 < \<bar>x\<bar>" by simp
  have "\<bar>x\<bar> < pow2 (\<lfloor>log 2 \<bar>x\<bar>\<rfloor> + 1)"
    using floor_log_eq_powr_iff [OF pos, of 2 "\<lfloor>log 2 \<bar>x\<bar>\<rfloor>"] by (simp add: pow2_powr)
  also have "\<dots> \<le> pow2 (binade x + 1)"
    by (rule pow2_mono) (simp add: binade_def)
  finally show ?thesis .
qed

lemma binade_lower: "x \<noteq> 0 \<Longrightarrow> - 1022 < binade x \<Longrightarrow> pow2 (binade x) \<le> \<bar>x\<bar>"
proof -
  assume "x \<noteq> 0" and b: "- 1022 < binade x"
  then have pos: "0 < \<bar>x\<bar>" by simp
  from b have "binade x = \<lfloor>log 2 \<bar>x\<bar>\<rfloor>" by (simp add: binade_def max_def split: if_splits)
  then show ?thesis
    using floor_log_eq_powr_iff [OF pos, of 2 "\<lfloor>log 2 \<bar>x\<bar>\<rfloor>"] by (simp add: pow2_powr)
qed

lemma binade_mono: "0 < x \<Longrightarrow> x \<le> y \<Longrightarrow> binade x \<le> binade y"
  unfolding binade_def by (intro max.mono floor_mono) simp_all

lemma round_even_of_int [simp]: "round_even (of_int n) = n"
  by (simp add: round_even_def)

lemma round_even_bounds: "\<lfloor>y\<rfloor> \<le> round_even y" "round_even y \<le> \<lfloor>y\<rfloor> + 1"
  by (simp_all add: round_even_def Let_def)

lemma round_even_mono: 
  assumes "a \<le> b" 
  shows "round_even a \<le> round_even b"
proof (cases "\<lfloor>a\<rfloor> = \<lfloor>b\<rfloor>")
  case True
  then have "a - of_int \<lfloor>a\<rfloor> \<le> b - of_int \<lfloor>b\<rfloor>" using assms by simp
  then show ?thesis using True by (auto simp: round_even_def Let_def)
next
  case False
  then have "\<lfloor>a\<rfloor> + 1 \<le> \<lfloor>b\<rfloor>" using floor_mono [OF assms] by linarith
  then show ?thesis using round_even_bounds(2) [of a] round_even_bounds(1) [of b] by linarith
qed

lemma round_even_le_int: "y \<le> of_int n \<Longrightarrow> round_even y \<le> n"
  using round_even_mono [of y "of_int n"] by simp

lemma round_even_ge_int: "of_int n \<le> y \<Longrightarrow> n \<le> round_even y"
  using round_even_mono [of "of_int n" y] by simp

lemma round_even_0 [simp]: "round_even 0 = 0"
  by (simp add: round_even_def)

lemma round_even_nonneg: "0 \<le> y \<Longrightarrow> 0 \<le> round_even y"
  using round_even_mono [of 0 y] by simp

lemma round_even_nonpos: "y \<le> 0 \<Longrightarrow> round_even y \<le> 0"
  using round_even_mono [of y 0] by simp

lemma to_double_nonneg:
  assumes "0 \<le> x"
  shows "0 \<le> to_double x"
proof -
  have "0 \<le> x / pow2 (binade x - 52)" using assms by simp
  then have "0 \<le> round_even (x / pow2 (binade x - 52))" by (rule round_even_nonneg)
  then show ?thesis by (simp add: to_double_def)
qed

lemma to_double_nonpos:
  assumes "x \<le> 0"
  shows "to_double x \<le> 0"
proof -
  have "x / pow2 (binade x - 52) \<le> 0" using assms by (simp add: divide_le_0_iff)
  then have "round_even (x / pow2 (binade x - 52)) \<le> 0" by (rule round_even_nonpos)
  then show ?thesis by (simp add: to_double_def mult_le_0_iff)
qed

lemma to_double_eval:
  assumes "pow2 e \<le> \<bar>x\<bar>" and "\<bar>x\<bar> < pow2 (e + 1)" and "- 1022 \<le> e"
  shows "to_double x = of_int (round_even (x / pow2 (e - 52))) * pow2 (e - 52)"
proof -
  have "0 < pow2 e" by simp
  with assms(1) have "0 < \<bar>x\<bar>" by linarith
  then have "x \<noteq> 0" by auto
  then show ?thesis by (simp add: to_double_def binade_eq [OF assms])
qed

lemma to_double_mono:
  assumes "0 < x" and "x \<le> y"
  shows "to_double x \<le> to_double y"
proof (cases "binade x = binade y")
  case True
  have "x / pow2 (binade y - 52) \<le> y / pow2 (binade y - 52)"
    by (rule divide_right_mono [OF assms(2)]) simp
  then have "round_even (x / pow2 (binade y - 52)) \<le> round_even (y / pow2 (binade y - 52))"
    by (rule round_even_mono)
  then show ?thesis using assms by (simp add: to_double_def True)
next
  case False
  then have lt: "binade x < binade y" using binade_mono [OF assms] by simp
  have x0: "x \<noteq> 0" and y0: "y \<noteq> 0" using assms by simp_all
  have "x / pow2 (binade x - 52) \<le> pow2 (binade x + 1) / pow2 (binade x - 52)"
    using binade_upper [OF x0] assms(1) by (intro divide_right_mono) simp_all
  also have "\<dots> = of_int (2 ^ 53)"
    using pow2_add [of "binade x - 52" 53] by (simp add: pow2_def algebra_simps)
  finally have "round_even (x / pow2 (binade x - 52)) \<le> 2 ^ 53"
    by (rule round_even_le_int)
  then have "to_double x \<le> 2 ^ 53 * pow2 (binade x - 52)"
    using x0 by (simp add: to_double_def)
  also have "\<dots> = pow2 (binade x + 1)"
    using pow2_add [of "binade x - 52" 53] by (simp add: pow2_def algebra_simps)
  also have "\<dots> \<le> pow2 (binade y)" using lt by (intro pow2_mono) simp
  finally have a: "to_double x \<le> pow2 (binade y)" .
  have ylow: "- 1022 < binade y" using lt by (simp add: binade_def)
  have "of_int (2 ^ 52) = pow2 (binade y) / pow2 (binade y - 52)"
    using pow2_add [of "binade y - 52" 52] by (simp add: pow2_def algebra_simps)
  also have "\<dots> \<le> y / pow2 (binade y - 52)"
    using binade_lower [OF y0 ylow] assms by (intro divide_right_mono) simp_all
  finally have "2 ^ 52 \<le> round_even (y / pow2 (binade y - 52))"
    by (rule round_even_ge_int)
  then have "2 ^ 52 * pow2 (binade y - 52) \<le> to_double y"
    using y0 by (simp add: to_double_def)
  moreover have "2 ^ 52 * pow2 (binade y - 52) = pow2 (binade y)"
    using pow2_add [of "binade y - 52" 52] by (simp add: pow2_def algebra_simps)
  ultimately show ?thesis using a by linarith
qed

lemma to_double_0 [simp]: "to_double 0 = 0"
  by (simp add: to_double_def)

lemma pow2_less_cancel: "pow2 a < pow2 b \<Longrightarrow> a < b"
  by (simp add: pow2_powr)

lemma to_double_int:
  assumes "n \<noteq> 0" and "\<bar>n\<bar> < 2 ^ 53"
  shows "to_double (of_int n) = of_int n"
proof -
  define e where "e = binade (of_int n)"
  have x0: "(of_int n :: real) \<noteq> 0" using assms(1) by simp
  have "1 \<le> \<bar>real_of_int n\<bar>" using assms(1) by (simp flip: of_int_abs add: int_one_le_iff_zero_less)
  then have "0 \<le> log 2 \<bar>real_of_int n\<bar>" by simp
  then have e0: "0 \<le> e" by (simp add: e_def binade_def)
  then have "- 1022 < e" by simp
  from binade_lower [OF x0] this have "pow2 e \<le> \<bar>real_of_int n\<bar>" by (simp add: e_def)
  also have "\<bar>real_of_int n\<bar> < pow2 53"
    using assms(2) by (simp add: pow2_def flip: of_int_abs)
  finally have "e < 53" by (rule pow2_less_cancel)
  then have k: "pow2 (e - 52) = 1 / 2 ^ nat (52 - e)"
    by (cases "e = 52") (simp_all add: pow2_def)
  have "real_of_int n / pow2 (e - 52) = of_int (n * 2 ^ nat (52 - e))"
    by (simp add: k)
  then have "round_even (real_of_int n / pow2 (e - 52)) = n * 2 ^ nat (52 - e)"
    by (simp only: round_even_of_int)
  then show ?thesis using x0 by (simp add: to_double_def k flip: e_def)
qed

lemma to_double_numeral: "numeral w < (2::int) ^ 53 \<Longrightarrow> to_double (numeral w) = numeral w"
  using to_double_int [of "numeral w"] by simp

lemma to_double_1 [simp]: "to_double 1 = 1"
  using to_double_int [of 1] by simp

lemma to_double_half: "to_double (1 / 2) = 1 / 2"
  by (subst to_double_eval [where e = "- 1"]) (simp_all add: pow2_def round_even_def)

lemma to_double_20th: "to_double (1 / 20) = 3602879701896397 / 2 ^ 56"
  by (subst to_double_eval [where e = "- 5"]) (simp_all add: pow2_def round_even_def)

lemma to_double_100th: "to_double (1 / 100) = 5764607523034235 / 2 ^ 59"
  by (subst to_double_eval [where e = "- 7"]) (simp_all add: pow2_def round_even_def)

lemma to_double_51ms: "to_double (51 / 1000) = 7349874591868649 / 2 ^ 57"
  by (subst to_double_eval [where e = "- 5"]) (simp_all add: pow2_def round_even_def)

lemma elapsed_threshold:
  "to_double (5 / 100) < to_double (real_of_int d / 1000) \<longleftrightarrow> 50 < d"
proof
  assume "50 < d"
  then have "51 / 1000 \<le> real_of_int d / 1000" by simp
  then have "to_double (51 / 1000) \<le> to_double (real_of_int d / 1000)"
    by (intro to_double_mono) simp_all
  then show "to_double (5 / 100) < to_double (real_of_int d / 1000)"
    by (simp add: to_double_20th to_double_51ms)
next
  assume a: "to_double (5 / 100) < to_double (real_of_int d / 1000)"
  show "50 < d"
  proof (rule ccontr)
    assume "\<not> 50 < d"
    then have le: "d \<le> 50" by simp
    show False
    proof (cases "0 < d")
      case True
      then have "0 < real_of_int d / 1000" and "real_of_int d / 1000 \<le> 5 / 100" using le by simp_all
      then have "to_double (real_of_int d / 1000) \<le> to_double (5 / 100)" by (rule to_double_mono)
      with a show False by simp
    next
      case False
      then have "to_double (real_of_int d / 1000) \<le> 0" by (intro to_double_nonpos) simp
      with a show False by (simp add: to_double_20th)
    qed
  qed
qed

section \<open>formatBytes\<close>

lemma unit_index_code [code]: "unit_index n = floorlog 1024 n - 1"
  by (simp add: unit_index_def floorlog_def log_def)

lemma unit_index_bounds:
  assumes "0 < n"
  shows "1024 ^ unit_index n \<le> n" and "n < 1024 ^ (unit_index n + 1)"
  using floorlog_bounds [of n 1024] assms
  by (simp_all add: unit_index_code floorlog_def)

lemma unit_index_less_iff: "0 < n \<Longrightarrow> unit_index n < k \<longleftrightarrow> n < 1024 ^ k"
proof
  assume n: "0 < n" and "unit_index n < k"
  then have "unit_index n + 1 \<le> k" by simp
  then have "(1024::nat) ^ (unit_index n + 1) \<le> 1024 ^ k"
    by (intro power_increasing) simp_all
  with unit_index_bounds(2) [OF n] show "n < 1024 ^ k" by linarith
next
  assume n: "0 < n" and lt: "n < 1024 ^ k"
  show "unit_index n < k"
  proof (rule ccontr)
    assume "\<not> unit_index n < k"
    then have "(1024::nat) ^ k \<le> 1024 ^ unit_index n"
      by (intro power_increasing) simp_all
    with unit_index_bounds(1) [OF n] lt show False by linarith
  qed
qed

lemma unat_digit: "d < 10 \<Longrightarrow> unat (digit d) = 48 + d"
  unfolding digit_def by (subst unat_of_nat) simp


lemma digit_inj: "d < 10 \<Longrightarrow> e < 10 \<Longrightarrow> digit d = digit e \<longleftrightarrow> d = e"
  by (metis unat_digit add_left_cancel)




lemma digits10_nonempty: "digits10 n \<noteq> []"
  by (subst digits10.simps) simp

lemma digits10_ge10: "10 \<le> n \<Longrightarrow> digits10 n = digits10 (n div 10) @ [digit (n mod 10)]"
  by (subst digits10.simps) simp

lemma Math_round_of_nat: "Math_round (real n) = int n"
  by (simp add: Math_round_def)

lemma toFixed_0_nat: "toFixed (real n) 0 = digits10 n"
  by (simp add: toFixed_def Math_round_of_nat)

lemma toFixed_1: 
  assumes "1 \<le> x"
  shows "toFixed x 1 = digits10 (nat (Math_round (x * 10)) div 10) @ [dot, digit (nat (Math_round (x * 10)) mod 10)]"
proof -
  have "10 \<le> Math_round (x * 10)" using assms by (simp add: Math_round_def le_floor_iff)
  then have m: "10 \<le> nat (Math_round (x * 10))" by simp
  show ?thesis
    by (simp add: toFixed_def Let_def digits10_ge10 [OF m] digits10_nonempty)
qed

lemma replace_dot0_frac:
  "d < 10 \<Longrightarrow> replace_dot0 (ds @ [dot, digit d]) = (if d = 0 then ds else ds @ [dot, digit d])"
  by (simp add: replace_dot0_def digit_inj)

lemma formatBytes_pos:
  assumes "0 < n"
  shows "formatBytes n =
     (let i = unit_index n; m = nat (Math_round (real n / real ((1024::nat) ^ i) * 10))
      in (if i = 0 then digits10 n
          else if m mod 10 = 0 then digits10 (m div 10)
          else digits10 (m div 10) @ [dot, digit (m mod 10)]) @ [space] @ to_string (sizes_at i))"
proof (cases "unit_index n = 0")
  case True
  with assms show ?thesis by (simp add: formatBytes_def toFixed_0_nat)
next
  case False
  have "1 \<le> real n / real ((1024::nat) ^ unit_index n)"
    using unit_index_bounds(1) [OF assms] by (simp add: le_divide_eq)
  from toFixed_1 [OF this] False assms show ?thesis
    by (simp add: formatBytes_def Let_def replace_dot0_frac)
qed

lemma sizes_at_lt: "i < 4 \<Longrightarrow> sizes_at i = Some (sizes ! i)"
  by (simp add: sizes_at_def sizes_def)


lemma length_sizes: "length sizes = 4"
  by (simp add: sizes_def)









lemma formatBytes_number_part:
  "0 < n \<Longrightarrow> formatBytes n = number_part n @ [space] @ to_string (sizes_at (unit_index n))"
  by (simp add: formatBytes_pos number_part_def Let_def)



text \<open>
  Claim C8, amended. For \<open>0 < n < 1024^4\<close> the unit index \<open>i\<close> is below 4 and is the
  largest with \<open>1024^i \<le> n\<close>; the result is the number (no decimals on the byte tier,
  one decimal with a zero decimal trimmed above it), a space and the \<open>i\<close>-th unit.
  \<^verbatim>\<open>formatBytes(0)\<close> is the zero literal, \<^verbatim>\<open>formatBytes(1536)\<close> is "1.5" kilobytes and
  \<^verbatim>\<open>formatBytes(1024*1024)\<close> is "1" megabyte.
\<close>

theorem formatBytes_tiers:
  "formatBytes 0 = ascii ''0 '' @ [0x411]
   \<and> formatBytes 1536 = ascii ''1.5 '' @ [0x41A, 0x411]
   \<and> formatBytes (1024 * 1024) = ascii ''1 '' @ [0x41C, 0x411]
   \<and> (0 < n \<and> n < 1024 ^ 4 \<longrightarrow>
         unit_index n < length sizes
         \<and> 1024 ^ unit_index n \<le> n \<and> n < 1024 ^ (unit_index n + 1)
         \<and> formatBytes n = number_part n @ [space] @ sizes ! unit_index n)"
proof (intro conjI impI)
  show "formatBytes 0 = ascii ''0 '' @ [0x411]"
    by (simp add: formatBytes_def)
  show "formatBytes 1536 = ascii ''1.5 '' @ [0x41A, 0x411]"
    by (simp add: formatBytes_number_part number_part_def unit_index_code compute_floorlog
        Math_round_def digits10.simps digit_def ascii_def dot_def space_def
        sizes_at_def sizes_def to_string_def)
  show "formatBytes (1024 * 1024) = ascii ''1 '' @ [0x41C, 0x411]"
    by (simp add: formatBytes_number_part number_part_def unit_index_code compute_floorlog
        Math_round_def digits10.simps digit_def ascii_def dot_def space_def
        sizes_at_def sizes_def to_string_def)
next
  assume n: "0 < n \<and> n < 1024 ^ 4"
  then have pos: "0 < n" and i: "unit_index n < 4"
    using unit_index_less_iff [of n 4] by simp_all
  show "unit_index n < length sizes" using i by (simp add: length_sizes)
  show "1024 ^ unit_index n \<le> n" by (rule unit_index_bounds(1) [OF pos])
  show "n < 1024 ^ (unit_index n + 1)" by (rule unit_index_bounds(2) [OF pos])
  show "formatBytes n = number_part n @ [space] @ sizes ! unit_index n"
    using i by (simp add: formatBytes_number_part [OF pos] sizes_at_lt to_string_def)
qed

theorem formatBytes_tiers_witness:
  "0 < (2048::nat) \<and> (2048::nat) < 1024 ^ 4 \<and> unit_index 2048 = 1
   \<and> formatBytes 2048 = ascii ''2 '' @ [0x41A, 0x411]"
proof -
  have i: "unit_index 2048 = 1"
    by (simp add: unit_index_code compute_floorlog)
  have np: "number_part 2048 = ascii ''2''"
    by (simp add: number_part_def i Math_round_def digits10.simps digit_def ascii_def)
  have "formatBytes 2048 = number_part 2048 @ [space] @ sizes ! unit_index 2048"
    using formatBytes_tiers [of 2048] by simp
  then show ?thesis
    by (simp add: i np sizes_def space_def ascii_def)
qed

text \<open>
  Claim C8 as stated has no upper bound: at \<open>1024^4\<close> the index is 4, the table has four
  entries, and no unit of the table is printed.
\<close>

theorem formatBytes_tiers_counterexample:
  "unit_index (1024 ^ 4) = 4 \<and> length sizes = 4
   \<and> formatBytes (1024 ^ 4) = ascii ''1 undefined''"
  by (simp add: formatBytes_number_part number_part_def unit_index_code compute_floorlog
      Math_round_def digits10.simps digit_def ascii_def dot_def space_def
      sizes_at_def sizes_def to_string_def)



section \<open>shortFileName\<close>

lemma lastIndexFrom_notin: "c \<notin> set xs \<Longrightarrow> lastIndexFrom xs c i found = found"
  by (induction xs arbitrary: i found) auto

lemma lastIndexFrom_last:
  "c \<notin> set ys \<Longrightarrow> lastIndexFrom (xs @ c # ys) c i found = i + int (length xs)"
  by (induction xs arbitrary: i found) (auto simp: lastIndexFrom_notin)

lemma lastIndexOf_notin: "c \<notin> set s \<Longrightarrow> lastIndexOf s c = - 1"
  by (simp add: lastIndexOf_def lastIndexFrom_notin)

lemma lastIndexOf_last: "c \<notin> set ys \<Longrightarrow> lastIndexOf (xs @ c # ys) c = int (length xs)"
  by (simp add: lastIndexOf_def lastIndexFrom_last)

lemma limit_pos: "0 < limit m"
  by (simp add: limit_def split: option.splits)

lemma shortFileName_short: "length name \<le> limit m \<Longrightarrow> shortFileName name m = name"
  by (simp add: shortFileName_def)

lemma shortFileName_no_ext:
  assumes long: "limit m < length name"
    and no: "\<not> (0 < lastIndexOf name dot \<and> int (length name) - 6 < lastIndexOf name dot)"
  shows "shortFileName name m = take (limit m - 1) name @ [ellipsis]"
proof -
  have "name \<noteq> []" using long by auto
  moreover have "nat (int (limit m) - 1) = limit m - 1" by simp
  ultimately show ?thesis
    using long no by (auto simp add: shortFileName_def Let_def)
qed

lemma shortFileName_ext:
  assumes long: "limit m < length name"
    and name: "name = stem @ dot # e" and e: "dot \<notin> set e" "length e \<le> 4" and stem: "stem \<noteq> []"
  shows "shortFileName name m =
     (if limit m < length e + 10 then take (limit m - 1) stem @ [ellipsis]
      else take (limit m - length e - 2) stem @ [ellipsis] @ dot # e)"
proof -
  have ld: "lastIndexOf name dot = int (length stem)"
    unfolding name using e(1) by (rule lastIndexOf_last)
  have split: "0 < lastIndexOf name dot \<and> int (length name) - 6 < lastIndexOf name dot"
    using stem e(2) unfolding ld by (simp add: name)
  have ne: "name \<noteq> []" by (simp add: name)
  have tk: "take (length stem) name = stem" and dr: "drop (length stem) name = dot # e"
    by (simp_all add: name)
  have k: "nat (int (limit m) - int (length e) - 2) = limit m - length e - 2" by linarith
  show ?thesis
    using long split ne
    by (simp add: shortFileName_def Let_def ld tk dr k)
qed

lemma shortFileName_length:
  assumes long: "limit m < length name"
  shows "length (shortFileName name m) \<le> limit m"
proof (cases "0 < lastIndexOf name dot \<and> int (length name) - 6 < lastIndexOf name dot")
  case False
  from shortFileName_no_ext [OF long False] limit_pos [of m] show ?thesis by simp
next
  case True
  have ne: "name \<noteq> []" using long by auto
  let ?ld = "nat (lastIndexOf name dot)"
  let ?ext = "drop ?ld name"
  let ?keep = "int (limit m) - int (length ?ext) - 1"
  have res: "shortFileName name m =
      (if ?keep < 8 then take (limit m - 1) (take ?ld name) @ [ellipsis]
       else take (nat ?keep) (take ?ld name) @ [ellipsis] @ ?ext)"
    using long True ne by (simp add: shortFileName_def Let_def)
  show ?thesis
  proof (cases "?keep < 8")
    case True
    with res limit_pos [of m] show ?thesis by simp
  next
    case False
    have tk: "length (take k ys) \<le> k" for k and ys :: jstring by simp
    have "length (shortFileName name m) = length (take (nat ?keep) (take ?ld name)) + 1 + length ?ext"
      using res False by (simp del: take_take length_take length_drop)
    also have "\<dots> \<le> nat ?keep + 1 + length ?ext"
      using tk [of "nat ?keep" "take ?ld name"] by linarith
    also have "\<dots> = limit m" using False by linarith
    finally show ?thesis .
  qed
qed

lemma a60_png:
  "shortFileName (replicate 60 0x61 @ ascii ''.png'') (Some 42)
     = replicate 37 0x61 @ [ellipsis] @ ascii ''.png''"
proof -
  have name: "replicate 60 0x61 @ ascii ''.png'' = replicate 60 0x61 @ dot # ascii ''png''"
    by (simp add: ascii_def dot_def)
  have "shortFileName (replicate 60 0x61 @ dot # ascii ''png'') (Some 42) =
     (if limit (Some 42) < length (ascii ''png'') + 10
      then take (limit (Some 42) - 1) (replicate 60 0x61) @ [ellipsis]
      else take (limit (Some 42) - length (ascii ''png'') - 2) (replicate 60 0x61) @ [ellipsis] @ dot # ascii ''png'')"
    by (rule shortFileName_ext [OF _ refl]) (simp_all add: limit_def ascii_def dot_def)
  then show ?thesis
    unfolding name by (simp add: limit_def ascii_def dot_def)
qed

text \<open>
  Claim C9, amended. A name within the limit is returned unchanged. A longer name is cut
  to at most the limit. An extension is split off when the last dot is not the first
  character and at most four characters follow it; then, if at least 8 characters of the
  stem can be kept, the result is the cut stem, one ellipsis and the extension, and
  otherwise it is the stem (not the whole name) cut to one less than the limit, and an
  ellipsis. Without such an extension the whole name is cut to one less than the limit and
  an ellipsis follows. Sixty letters a and ".png" with limit 42 keep ".png", get
  exactly one ellipsis and come out 42 long.
\<close>

theorem shortFileName_truncates:
  "(length name \<le> limit m \<longrightarrow> shortFileName name m = name)
   \<and> (limit m < length name \<longrightarrow> length (shortFileName name m) \<le> limit m)
   \<and> (limit m < length name \<and> name = stem @ dot # e \<and> dot \<notin> set e \<and> stem \<noteq> [] \<and> length e \<le> 4 \<longrightarrow>
         shortFileName name m =
           (if limit m < length e + 10 then take (limit m - 1) stem @ [ellipsis]
            else take (limit m - length e - 2) stem @ [ellipsis] @ dot # e))
   \<and> (limit m < length name
        \<and> (dot \<notin> set name \<or> name = stem @ dot # e \<and> dot \<notin> set e \<and> (stem = [] \<or> 5 \<le> length e)) \<longrightarrow>
         shortFileName name m = take (limit m - 1) name @ [ellipsis])
   \<and> shortFileName (replicate 60 0x61 @ ascii ''.png'') (Some 42)
        = replicate 37 0x61 @ [ellipsis] @ ascii ''.png''
   \<and> length (shortFileName (replicate 60 0x61 @ ascii ''.png'') (Some 42)) \<le> 42
   \<and> count_list (shortFileName (replicate 60 0x61 @ ascii ''.png'') (Some 42)) ellipsis = 1"
proof (intro conjI impI)
  show "shortFileName name m = name" if "length name \<le> limit m"
    using that by (rule shortFileName_short)
  show "length (shortFileName name m) \<le> limit m" if "limit m < length name"
    using that by (rule shortFileName_length)
  show "shortFileName name m =
           (if limit m < length e + 10 then take (limit m - 1) stem @ [ellipsis]
            else take (limit m - length e - 2) stem @ [ellipsis] @ dot # e)"
    if "limit m < length name \<and> name = stem @ dot # e \<and> dot \<notin> set e \<and> stem \<noteq> [] \<and> length e \<le> 4"
    using that by (elim conjE) (rule shortFileName_ext; assumption)
  show "shortFileName name m = take (limit m - 1) name @ [ellipsis]"
    if h: "limit m < length name
        \<and> (dot \<notin> set name \<or> name = stem @ dot # e \<and> dot \<notin> set e \<and> (stem = [] \<or> 5 \<le> length e))"
  proof (rule shortFileName_no_ext)
    show "limit m < length name" using h by simp
    from h consider "dot \<notin> set name"
      | "name = stem @ dot # e" "dot \<notin> set e" "stem = [] \<or> 5 \<le> length e" by blast
    then show "\<not> (0 < lastIndexOf name dot \<and> int (length name) - 6 < lastIndexOf name dot)"
    proof cases
      case 1
      then show ?thesis by (simp add: lastIndexOf_notin)
    next
      case 2
      have "lastIndexOf name dot = int (length stem)"
        unfolding 2(1) using 2(2) by (rule lastIndexOf_last)
      then show ?thesis using 2(3) by (auto simp: 2(1))
    qed
  qed
  show "shortFileName (replicate 60 0x61 @ ascii ''.png'') (Some 42)
        = replicate 37 0x61 @ [ellipsis] @ ascii ''.png''"
    by (rule a60_png)
  show "length (shortFileName (replicate 60 0x61 @ ascii ''.png'') (Some 42)) \<le> 42"
    unfolding a60_png by (simp add: ascii_def)
  show "count_list (shortFileName (replicate 60 0x61 @ ascii ''.png'') (Some 42)) ellipsis = 1"
    unfolding a60_png by (simp add: ascii_def ellipsis_def count_list_0_iff)
qed

theorem shortFileName_truncates_witness:
  "length (ascii ''a.png'') \<le> limit None
   \<and> shortFileName (ascii ''a.png'') None = ascii ''a.png''
   \<and> limit (Some 10) < length (ascii ''abcdefgh.txt'')
   \<and> length (shortFileName (ascii ''abcdefgh.txt'') (Some 10)) \<le> limit (Some 10)
   \<and> shortFileName (ascii ''abcdefgh.txt'') (Some 10) = ascii ''abcdefgh'' @ [ellipsis]
   \<and> shortFileName (ascii ''abcdefghijkl'') (Some 10) = ascii ''abcdefghi'' @ [ellipsis]"
proof -
  have a: "length (ascii ''a.png'') \<le> limit None"
    by (simp add: limit_def ascii_def)
  have b: "limit (Some 10) < length (ascii ''abcdefgh.txt'')
      \<and> ascii ''abcdefgh.txt'' = ascii ''abcdefgh'' @ dot # ascii ''txt''
      \<and> dot \<notin> set (ascii ''txt'') \<and> ascii ''abcdefgh'' \<noteq> [] \<and> length (ascii ''txt'') \<le> 4"
    by (simp add: limit_def ascii_def dot_def)
  have c: "limit (Some 10) < length (ascii ''abcdefghijkl'') \<and> dot \<notin> set (ascii ''abcdefghijkl'')"
    by (simp add: limit_def ascii_def dot_def)
  note t1 = shortFileName_truncates [of "ascii ''a.png''" None "[]" "[]"]
  note t2 = shortFileName_truncates [of "ascii ''abcdefgh.txt''" "Some 10" "ascii ''abcdefgh''" "ascii ''txt''"]
  note t3 = shortFileName_truncates [of "ascii ''abcdefghijkl''" "Some 10" "[]" "[]"]
  have r1: "shortFileName (ascii ''a.png'') None = ascii ''a.png''"
    using t1 a by blast
  have r2: "length (shortFileName (ascii ''abcdefgh.txt'') (Some 10)) \<le> limit (Some 10)"
    using t2 b by blast
  have "shortFileName (ascii ''abcdefgh.txt'') (Some 10) =
      (if limit (Some 10) < length (ascii ''txt'') + 10 then take (limit (Some 10) - 1) (ascii ''abcdefgh'') @ [ellipsis]
       else take (limit (Some 10) - length (ascii ''txt'') - 2) (ascii ''abcdefgh'') @ [ellipsis] @ dot # ascii ''txt'')"
    using t2 b by blast
  then have r3: "shortFileName (ascii ''abcdefgh.txt'') (Some 10) = ascii ''abcdefgh'' @ [ellipsis]"
    by (simp add: limit_def ascii_def)
  have "shortFileName (ascii ''abcdefghijkl'') (Some 10) = take (limit (Some 10) - 1) (ascii ''abcdefghijkl'') @ [ellipsis]"
    using t3 c by blast
  then have r4: "shortFileName (ascii ''abcdefghijkl'') (Some 10) = ascii ''abcdefghi'' @ [ellipsis]"
    by (simp add: limit_def ascii_def)
  from a b r1 r2 r3 r4 show ?thesis by blast
qed

text \<open>
  Claim C9 as stated lets the fallback cut the whole name. With limit 10 the name
  "abcdefgh.txt" loses its extension before the fallback is taken: the result is the stem
  and an ellipsis, where a cut of the whole name would keep the dot.
\<close>

theorem shortFileName_truncates_counterexample:
  "shortFileName (ascii ''abcdefgh.txt'') (Some 10) = ascii ''abcdefgh'' @ [ellipsis]
   \<and> take (10 - 1) (ascii ''abcdefgh.txt'') @ [ellipsis] = ascii ''abcdefgh.'' @ [ellipsis]
   \<and> shortFileName (ascii ''abcdefgh.txt'') (Some 10) \<noteq> take (10 - 1) (ascii ''abcdefgh.txt'') @ [ellipsis]"
  by (simp add: shortFileName_def limit_def lastIndexOf_def ascii_def dot_def ellipsis_def Let_def)

section \<open>The upload chain\<close>

lemma trace_showUploadProgress [simp]: "trace (showUploadProgress b p s) = trace s"
  by (simp add: showUploadProgress_def Let_def)

lemma trace_animate [simp]: "trace (animateUploadProgress s) = trace s"
  by (simp add: animateUploadProgress_def Let_def)

lemma trace_on_progress [simp]: "trace (on_progress l t c n s) = trace s"
  by (simp add: on_progress_def Let_def)

lemma trace_on_tick [simp]: "trace (on_tick t s) = trace s"
  by (cases t) simp_all

lemma trace_fold_on_tick [simp]: "trace (fold on_tick ts s) = trace s"
  by (induction ts arbitrary: s) simp_all

lemma trace_begin_upload [simp]: "trace (begin_upload f v n s) = trace s @ [Dispatch v]"
  by (simp add: begin_upload_def Let_def)

lemma trace_done_cb [simp]: "trace (done_cb s) = trace s @ [OnSuccess]"
  by (simp add: done_cb_def Let_def)

lemma trace_setBusy_false [simp]: "trace (setBusy_false s) = trace s @ [OnError]"
  by (simp add: setBusy_false_def)

lemma trace_uploadProductFile:
  assumes cb: "\<And>x. trace (cb x) = trace x @ rest"
  shows "trace (uploadProductFile f v t cb (Some setBusy_false) s)
     = trace s @ up_events v (outcome t) rest"
  by (cases "outcome t")
     (simp_all add: uploadProductFile_def xhr_onload_def xhr_onerror_def call_onError_def
        up_events_def Let_def cb)

lemma trace_runJob: "trace (runJob i v s) = trace s @ job_events i v"
proof -
  have vid: "trace (uploadProductFile fv True tv done_cb (Some setBusy_false) x)
      = trace x @ up_events True (outcome tv) [OnSuccess]" for fv tv x
    by (rule trace_uploadProductFile) simp
  show ?thesis
  proof (cases i)
    case None
    then show ?thesis
      by (cases v) (auto simp: runJob_def job_events_def vid)
  next
    case (Some a)
    obtain fi ti where a: "a = (fi, ti)" by (cases a)
    show ?thesis
    proof (cases v)
      case None
      have "trace (uploadProductFile fi False ti (\<lambda>s'. done_cb s') (Some setBusy_false) s)
          = trace s @ up_events False (outcome ti) [OnSuccess]"
        by (rule trace_uploadProductFile) simp
      then show ?thesis using Some a None by (simp add: runJob_def job_events_def)
    next
      case (Some b)
      obtain fv tv where b: "b = (fv, tv)" by (cases b)
      have "trace (uploadProductFile fi False ti
              (\<lambda>s'. uploadProductFile fv True tv done_cb (Some setBusy_false) s') (Some setBusy_false) s)
          = trace s @ up_events False (outcome ti) (up_events True (outcome tv) [OnSuccess])"
        by (rule trace_uploadProductFile) (rule vid)
      then show ?thesis using \<open>i = Some a\<close> a Some b by (simp add: runJob_def job_events_def)
    qed
  qed
qed

lemma job_log_events: "job_log i v s = job_events i v"
  by (simp add: job_log_def trace_runJob)

lemma up_events_counts:
  "count_list (up_events k out rest) OnSuccess = (if accepted out then count_list rest OnSuccess else 0)"
  "count_list (up_events k out rest) OnError =
     (if accepted out then (if malformed out then 1 else 0) + count_list rest OnError else 1)"
  by (cases out; simp add: up_events_def accepted_def malformed_def)+

lemma malformed_accepted: "malformed out \<Longrightarrow> accepted out"
  by (cases out) (simp_all add: malformed_def accepted_def)

lemma dispatches_OnSuccess: "dispatches [OnSuccess] = []"
  by (simp add: dispatches_def)

lemma up_events_success:
  "accepted out \<Longrightarrow> \<not> malformed out \<Longrightarrow> up_events k out rest = Dispatch k # rest"
  by (cases out) (simp_all add: up_events_def accepted_def malformed_def)

lemma up_events_dispatches:
  "dispatches (up_events k out rest) = k # (if accepted out then dispatches rest else [])"
  by (cases out) (simp_all add: up_events_def accepted_def dispatches_def)

text \<open>
  Claim C1, amended. A job calls the success callback at most once, and the number of
  terminal callbacks it makes is one more than the number of dispatched transfers whose
  response had a success status and an unparseable body. So when no transfer ends that
  way, exactly one of the two callbacks is called, exactly once.
\<close>

theorem job_resolves_once:
  "count_list (job_log i v s) OnSuccess \<le> 1
   \<and> count_list (job_log i v s) OnSuccess + count_list (job_log i v s) OnError
       = 1 + malformed_dispatched i v
   \<and> (\<not> gets_malformed i \<and> \<not> gets_malformed v \<longrightarrow>
         count_list (job_log i v s) OnSuccess + count_list (job_log i v s) OnError = 1)"
proof -
  have "count_list (job_events i v) OnSuccess \<le> 1
     \<and> count_list (job_events i v) OnSuccess + count_list (job_events i v) OnError
         = 1 + malformed_dispatched i v"
    by (cases i; cases v)
       (auto simp: job_events_def up_events_counts malformed_dispatched_def gets_malformed_def
          gets_accepted_def dest: malformed_accepted)
  moreover have "malformed_dispatched i v = 0" if "\<not> gets_malformed i \<and> \<not> gets_malformed v"
    using that by (simp add: malformed_dispatched_def)
  ultimately show ?thesis by (simp add: job_log_events)
qed

lemmas run_defs = runJob_def uploadProductFile_def begin_upload_def xhr_onload_def xhr_onerror_def
  call_onError_def showUploadProgress_def done_cb_def setBusy_false_def page0_def
  served_def png_def mp4_def Let_def

text \<open>
  Claim C1 as stated fails for a single image whose upload is answered with status 200
  and a body that does not parse: \<^verbatim>\<open>onError\<close> is called and then, through \<^verbatim>\<open>cb\<close>, the
  success callback as well.
\<close>

theorem job_resolves_once_counterexample:
  "job_log (Some (png, served 200 False)) None page0 = [Dispatch False, OnError, OnSuccess]"
  by (simp add: job_log_def run_defs)

theorem job_resolves_once_witness:
  "\<not> gets_malformed (Some (png, served 200 True)) \<and> \<not> gets_malformed (Some (mp4, served 500 False))
   \<and> count_list (job_log (Some (png, served 200 True)) (Some (mp4, served 500 False)) page0) OnSuccess
      + count_list (job_log (Some (png, served 200 True)) (Some (mp4, served 500 False)) page0) OnError = 1"
proof -
  have h: "\<not> gets_malformed (Some (png, served 200 True)) \<and> \<not> gets_malformed (Some (mp4, served 500 False))"
    by (simp add: gets_malformed_def malformed_def served_def)
  with job_resolves_once [of "Some (png, served 200 True)" "Some (mp4, served 500 False)" page0]
  show ?thesis by blast
qed

text \<open>
  Claim C2, amended. The image is dispatched first, if there is one; the video is
  dispatched exactly when there is one and the image is absent or was answered with a
  success status (whether or not its body parsed). Without files the job only calls the
  success callback. With two files that both succeed there are two dispatches, in order,
  and then one success callback.
\<close>

theorem job_sequencing:
  "dispatches (job_log i v s)
     = (if i = None then [] else [False])
       @ (if v \<noteq> None \<and> (i = None \<or> gets_accepted i) then [True] else [])
   \<and> (True \<in> set (dispatches (job_log i v s)) \<longleftrightarrow> v \<noteq> None \<and> (i = None \<or> gets_accepted i))
   \<and> job_log None None s = [OnSuccess]
   \<and> (gets_success i \<and> gets_success v \<longrightarrow> job_log i v s = [Dispatch False, Dispatch True, OnSuccess])"
proof -
  have d: "dispatches (job_events i v)
     = (if i = None then [] else [False])
       @ (if v \<noteq> None \<and> (i = None \<or> gets_accepted i) then [True] else [])"
    by (cases i; cases v)
       (auto simp: job_events_def up_events_dispatches gets_accepted_def dispatches_OnSuccess)
  have m: "True \<in> set (dispatches (job_events i v)) \<longleftrightarrow> v \<noteq> None \<and> (i = None \<or> gets_accepted i)"
    unfolding d by auto
  have n: "job_events None None = [OnSuccess]"
    by (simp add: job_events_def)
  have b: "job_events i v = [Dispatch False, Dispatch True, OnSuccess]"
    if "gets_success i \<and> gets_success v"
    using that
    by (cases i; cases v)
       (auto simp: job_events_def gets_success_def up_events_success)
  from d m n b show ?thesis by (simp add: job_log_events)
qed

text \<open>
  Claim C2 as stated fails when the image's upload is answered with status 200 and an
  unparseable body: the failure is reported through \<^verbatim>\<open>onError\<close>, and the video is
  dispatched all the same.
\<close>

theorem job_sequencing_counterexample:
  "job_log (Some (png, served 200 False)) (Some (mp4, served 200 True)) page0
     = [Dispatch False, OnError, Dispatch True, OnSuccess]"
  by (simp add: job_log_def run_defs)

theorem job_sequencing_witness:
  "gets_success (Some (png, served 200 True)) \<and> gets_success (Some (mp4, served 201 True))
   \<and> job_log (Some (png, served 200 True)) (Some (mp4, served 201 True)) page0
       = [Dispatch False, Dispatch True, OnSuccess]
   \<and> dispatches (job_log (Some (png, served 404 True)) (Some (mp4, served 200 True)) page0) = [False]"
proof -
  have h: "gets_success (Some (png, served 200 True)) \<and> gets_success (Some (mp4, served 201 True))"
    by (simp add: gets_success_def accepted_def malformed_def served_def)
  have a: "\<not> gets_accepted (Some (png, served 404 True))"
    by (simp add: gets_accepted_def accepted_def served_def)
  have "dispatches (job_log (Some (png, served 404 True)) (Some (mp4, served 200 True)) page0)
      = (if Some (png, served 404 True) = None then [] else [False])
        @ (if Some (mp4, served 200 True) \<noteq> None
              \<and> (Some (png, served 404 True) = None \<or> gets_accepted (Some (png, served 404 True)))
           then [True] else [])"
    using job_sequencing [of "Some (png, served 404 True)" "Some (mp4, served 200 True)" page0] by blast
  then have d: "dispatches (job_log (Some (png, served 404 True)) (Some (mp4, served 200 True)) page0) = [False]"
    using a by simp
  from h d job_sequencing [of "Some (png, served 200 True)" "Some (mp4, served 201 True)" page0]
  show ?thesis by blast
qed

section \<open>The upload state during a transfer\<close>

lemma Math_round_nonneg: "0 \<le> x \<Longrightarrow> 0 \<le> Math_round x"
  by (simp add: Math_round_def)

lemma realPercent_on_progress:
  "realPercent (on_progress l t c n s) =
     (if c \<and> 0 < t
      then min 99 (to_double (real_of_int (Math_round
             (to_double (to_double (real l / real t) * 1000))) / 10))
      else realPercent s)"
  by (simp add: on_progress_def Let_def)

lemma percent_value_nonneg:
  "0 \<le> to_double (real_of_int (Math_round (to_double (to_double (real l / real t) * 1000))) / 10)"
proof -
  have "0 \<le> to_double (real l / real t)" by (rule to_double_nonneg) simp
  then have "0 \<le> to_double (to_double (real l / real t) * 1000)" by (intro to_double_nonneg) simp
  then have "0 \<le> Math_round (to_double (to_double (real l / real t) * 1000))"
    by (rule Math_round_nonneg)
  then show ?thesis by (intro to_double_nonneg) simp
qed

lemma displayedPercent_on_progress [simp]:
  "displayedPercent (on_progress l t c n s) = displayedPercent s"
  by (simp add: on_progress_def Let_def)

lemma realPercent_on_progress_range:
  assumes "0 \<le> realPercent s" and "realPercent s \<le> 99"
  shows "0 \<le> realPercent (on_progress l t c n s)" and "realPercent (on_progress l t c n s) \<le> 99"
  using assms percent_value_nonneg [of l t] by (simp_all add: realPercent_on_progress)

lemma realPercent_on_progress_bounded:
  assumes "0 \<le> realPercent s" and "realPercent s \<le> 100"
  shows "0 \<le> realPercent (on_progress l t c n s) \<and> realPercent (on_progress l t c n s) \<le> 100"
  using assms percent_value_nonneg [of l t]
  by (simp add: realPercent_on_progress min.coboundedI1)

lemma realPercent_animate [simp]: "realPercent (animateUploadProgress s) = realPercent s"
  by (simp add: animateUploadProgress_def Let_def)

lemma displayedPercent_animate:
  "displayedPercent (animateUploadProgress s) =
     (if active s \<and> fill s \<and> \<not> indeterminate s
      then (let dp = displayedPercent s + (realPercent s - displayedPercent s) * (8 / 100)
            in if dp > 995 / 10 then realPercent s else dp)
      else displayedPercent s)"
  by (simp add: animateUploadProgress_def Let_def)

lemma bounded_on_tick: "bounded s \<Longrightarrow> bounded (on_tick t s)"
proof (cases t)
  case (Progress l tot c n)
  assume "bounded s"
  then show ?thesis
    using realPercent_on_progress_bounded [of s l tot c n]
    by (simp add: Progress bounded_def)
next
  case Frame
  assume b: "bounded s"
  define dp where "dp = displayedPercent s + (realPercent s - displayedPercent s) * (8 / 100)"
  have "0 \<le> dp \<and> dp \<le> 100" using b unfolding dp_def bounded_def by argo
  then show ?thesis
    using b by (auto simp: Frame bounded_def displayedPercent_animate Let_def dp_def)
qed

lemma step_on_tick:
  assumes "lags s" and "realPercent s \<le> realPercent (on_tick t s)"
  shows "displayedPercent s \<le> displayedPercent (on_tick t s) \<and> lags (on_tick t s)"
proof (cases t)
  case (Progress l tot c n)
  then show ?thesis using assms by (simp add: lags_def)
next
  case Frame
  define dp where "dp = displayedPercent s + (realPercent s - displayedPercent s) * (8 / 100)"
  have "displayedPercent s \<le> dp \<and> dp \<le> realPercent s"
    using assms(1) unfolding dp_def lags_def by argo
  then show ?thesis
    using assms(1) by (auto simp: Frame lags_def displayedPercent_animate Let_def dp_def)
qed

lemma percent_finish:
  "displayedPercent (finish out fs s) = (case out of Load st p \<Rightarrow> 100 | NetError \<Rightarrow> displayedPercent s)"
  "realPercent (finish out fs s) = (case out of Load st p \<Rightarrow> 100 | NetError \<Rightarrow> realPercent s)"
  by (cases out; simp add: finish_def xhr_onload_def xhr_onerror_def call_onError_def
        showUploadProgress_def Let_def)+

lemma bounded_finish: "bounded s \<Longrightarrow> bounded (finish out fs s)"
  by (cases out) (simp_all add: bounded_def percent_finish)

lemma step_finish:
  "bounded s \<Longrightarrow> lags s \<Longrightarrow>
     displayedPercent s \<le> displayedPercent (finish out fs s) \<and> lags (finish out fs s)"
  by (cases out) (simp_all add: bounded_def lags_def percent_finish)

lemma bounded_run_states: "bounded s \<Longrightarrow> list_all bounded (run_states ts out fs s)"
  by (induction ts arbitrary: s) (simp_all add: bounded_finish bounded_on_tick)

lemma run_states_hd: "hd (run_states ts out fs s) = s"
  by (cases ts) simp_all

lemma run_states_Cons: "\<exists>rest. run_states ts out fs s = s # rest"
  by (cases ts) simp_all

lemma monotone_run_states:
  "bounded s \<Longrightarrow> lags s \<Longrightarrow> sorted (map realPercent (run_states ts out fs s)) \<Longrightarrow>
     sorted (map displayedPercent (run_states ts out fs s)) \<and> list_all lags (run_states ts out fs s)"
proof (induction ts arbitrary: s)
  case Nil
  then show ?case using step_finish [of s out fs] by simp
next
  case (Cons t ts)
  obtain rest where rest: "run_states ts out fs (on_tick t s) = on_tick t s # rest"
    using run_states_Cons by blast
  from Cons.prems(3) have up: "realPercent s \<le> realPercent (on_tick t s)"
    and srt: "sorted (map realPercent (run_states ts out fs (on_tick t s)))"
    by (simp_all add: rest)
  from step_on_tick [OF Cons.prems(2) up]
  have d: "displayedPercent s \<le> displayedPercent (on_tick t s)" and l: "lags (on_tick t s)" by simp_all
  from Cons.IH [OF bounded_on_tick [OF Cons.prems(1)] l srt]
  have ih: "sorted (map displayedPercent (run_states ts out fs (on_tick t s)))"
    and il: "list_all lags (run_states ts out fs (on_tick t s))" by simp_all
  from ih d have "sorted (map displayedPercent (s # run_states ts out fs (on_tick t s)))"
    unfolding rest by (auto simp: order_trans)
  with il Cons.prems(2) show ?case by simp
qed

lemma percent_begin_upload:
  "displayedPercent (begin_upload f v n s) = 0" "realPercent (begin_upload f v n s) = 0"
  by (simp_all add: begin_upload_def showUploadProgress_def Let_def)

lemma bounded_begin_upload: "bounded (begin_upload f v n s)"
  by (simp add: bounded_def percent_begin_upload)

lemma lags_begin_upload: "lags (begin_upload f v n s)"
  by (simp add: lags_def percent_begin_upload)

text \<open>
  Claim C7. In every state of a transfer, whatever the browser delivers, the displayed
  percentage lies between 0 and 100. If the raw percentage never decreases along the
  transfer, then the displayed percentage never decreases either, and it never exceeds the
  raw percentage.
\<close>

theorem displayedPercent_bounded_monotone:
  "list_all (\<lambda>x. 0 \<le> displayedPercent x \<and> displayedPercent x \<le> 100) (transfer_states f v t s)
   \<and> (sorted (map realPercent (transfer_states f v t s)) \<longrightarrow>
         sorted (map displayedPercent (transfer_states f v t s))
         \<and> list_all (\<lambda>x. displayedPercent x \<le> realPercent x) (transfer_states f v t s))"
proof (intro conjI impI)
  have "list_all bounded (transfer_states f v t s)"
    unfolding transfer_states_def by (rule bounded_run_states) (rule bounded_begin_upload)
  then show "list_all (\<lambda>x. 0 \<le> displayedPercent x \<and> displayedPercent x \<le> 100) (transfer_states f v t s)"
    by (simp add: list_all_iff bounded_def)
next
  assume "sorted (map realPercent (transfer_states f v t s))"
  then have m: "sorted (map displayedPercent (transfer_states f v t s))
      \<and> list_all lags (transfer_states f v t s)"
    unfolding transfer_states_def
    by (intro monotone_run_states bounded_begin_upload lags_begin_upload)
  then show "sorted (map displayedPercent (transfer_states f v t s))" by simp
  from m show "list_all (\<lambda>x. displayedPercent x \<le> realPercent x) (transfer_states f v t s)"
    by (simp add: list_all_iff lags_def)
qed

theorem displayedPercent_bounded_monotone_witness:
  "map realPercent (transfer_states png False two_steps page0) = [0, 50, 50, 99, 99, 100]
   \<and> sorted (map realPercent (transfer_states png False two_steps page0))
   \<and> sorted (map displayedPercent (transfer_states png False two_steps page0))
   \<and> list_all (\<lambda>x. displayedPercent x \<le> realPercent x) (transfer_states png False two_steps page0)"
proof -
  have raw: "map realPercent (transfer_states png False two_steps page0) = [0, 50, 50, 99, 99, 100]"
    by (simp add: transfer_states_def two_steps_def realPercent_on_progress percent_finish
        percent_begin_upload Math_round_def to_double_half to_double_numeral)
  then have srt: "sorted (map realPercent (transfer_states png False two_steps page0))"
    by simp
  from raw srt displayedPercent_bounded_monotone [of png False two_steps page0]
  show ?thesis by blast
qed

lemma raw_capped_begin_upload: "raw_capped (begin_upload f v n s)"
  by (simp add: raw_capped_def percent_begin_upload)

lemma raw_capped_on_tick: "raw_capped s \<Longrightarrow> raw_capped (on_tick t s)"
proof (cases t)
  case (Progress l tot c n)
  assume "raw_capped s"
  then show ?thesis
    using realPercent_on_progress_range [of s l tot c n]
    by (simp add: Progress raw_capped_def)
next
  case Frame
  assume b: "raw_capped s"
  define dp where "dp = displayedPercent s + (realPercent s - displayedPercent s) * (8 / 100)"
  have "0 \<le> dp \<and> dp \<le> 99" using b unfolding dp_def raw_capped_def by argo
  then show ?thesis
    using b by (auto simp: Frame raw_capped_def displayedPercent_animate Let_def dp_def)
qed

lemma raw_capped_butlast_run_states:
  "raw_capped s \<Longrightarrow> list_all raw_capped (butlast (run_states ts out fs s))"
proof (induction ts arbitrary: s)
  case Nil
  then show ?case by simp
next
  case (Cons t ts)
  obtain rest where rest: "run_states ts out fs (on_tick t s) = on_tick t s # rest"
    using run_states_Cons by blast
  then have ne: "run_states ts out fs (on_tick t s) \<noteq> []" by simp
  from Cons.IH [OF raw_capped_on_tick [OF Cons.prems]] Cons.prems
  show ?case by (simp add: ne)
qed

lemma last_run_states: "last (run_states ts out fs s) = finish out fs (fold on_tick ts s)"
proof (induction ts arbitrary: s)
  case Nil
  show ?case by simp
next
  case (Cons t ts)
  obtain rest where rest: "run_states ts out fs (on_tick t s) = on_tick t s # rest"
    using run_states_Cons by blast
  from Cons.IH [of "on_tick t s"] show ?case by (simp add: rest)
qed

lemma raw_capped_fold: "raw_capped s \<Longrightarrow> raw_capped (fold on_tick ts s)"
  by (induction ts arbitrary: s) (simp_all add: raw_capped_on_tick)

lemma run_states_snoc:
  "run_states ts out fs s = butlast (run_states ts out fs s) @ [last (run_states ts out fs s)]"
proof -
  obtain rest where "run_states ts out fs s = s # rest" using run_states_Cons by blast
  then have "run_states ts out fs s \<noteq> []" by simp
  then show ?thesis by simp
qed

lemma percent_201_400:
  "to_double (real_of_int (Math_round (to_double (to_double (201 / 400) * 1000))) / 10)
     = 3532510957718733 / 2 ^ 46"
proof -
  have q: "to_double (201 / 400) = 1131529406376837 / 2 ^ 51"
    by (subst to_double_eval [where e = "- 1"]) (simp_all add: pow2_def round_even_def)
  have p: "to_double (1131529406376837 / 2 ^ 51 * 1000) = 8840073487319039 / 2 ^ 44"
    by (subst to_double_eval [where e = 8]) (simp_all add: pow2_def round_even_def)
  have r: "Math_round (8840073487319039 / 2 ^ 44) = 502"
    by (simp add: Math_round_def)
  have v: "to_double (real_of_int 502 / 10) = 3532510957718733 / 2 ^ 46"
    by (subst to_double_eval [where e = 5]) (simp_all add: pow2_def round_even_def)
  show ?thesis unfolding q p r v ..
qed

lemma double_50_2: "to_double (502 / 10) = 3532510957718733 / 2 ^ 46"
  by (subst to_double_eval [where e = 5]) (simp_all add: pow2_def round_even_def)

lemma percent_half:
  "to_double (real_of_int (Math_round (to_double (to_double (1 / 2) * 1000))) / 10) = 50"
  by (simp add: to_double_half to_double_numeral Math_round_def)

text \<open>
  Claim C3, amended. A progress event with a computable, positive total sets the raw
  percentage to \<open>min(99, round(loaded / total * 1000) / 10)\<close>, each operation rounded to a
  double as the code computes it: one million of two million bytes give 50, and 201 of 400
  bytes give 50.2. In every state of a transfer before its load or error handler the raw
  percentage is at most 99. The load handler sets it to 100 for every response, whatever
  the status; after an error it is still at most 99.
\<close>

theorem realPercent_progress:
  "(c \<and> 0 < tot \<longrightarrow>
       realPercent (on_progress loaded tot c now s)
         = min 99 (to_double (real_of_int (Math_round
             (to_double (to_double (real loaded / real tot) * 1000))) / 10)))
   \<and> realPercent (on_progress 1000000 2000000 True now s) = 50
   \<and> realPercent (on_progress 201 400 True now s) = to_double (502 / 10)
   \<and> list_all (\<lambda>x. realPercent x \<le> 99) (butlast (transfer_states f v t s0))
   \<and> (realPercent (last (transfer_states f v t s0)) = 100 \<longleftrightarrow> outcome t \<noteq> NetError)
   \<and> (outcome t = NetError \<longrightarrow> list_all (\<lambda>x. realPercent x \<le> 99) (transfer_states f v t s0))"
proof (intro conjI impI)
  show "realPercent (on_progress loaded tot c now s)
         = min 99 (to_double (real_of_int (Math_round
             (to_double (to_double (real loaded / real tot) * 1000))) / 10))"
    if "c \<and> 0 < tot"
    using that by (simp add: realPercent_on_progress)
  show "realPercent (on_progress 1000000 2000000 True now s) = 50"
    by (simp add: realPercent_on_progress percent_half)
  have "realPercent (on_progress 201 400 True now s)
      = min 99 (to_double (real_of_int (Math_round (to_double (to_double (201 / 400) * 1000))) / 10))"
    by (simp add: realPercent_on_progress)
  then show "realPercent (on_progress 201 400 True now s) = to_double (502 / 10)"
    unfolding percent_201_400 double_50_2 by simp
  have pre: "list_all raw_capped (butlast (transfer_states f v t s0))"
    unfolding transfer_states_def
    by (rule raw_capped_butlast_run_states) (rule raw_capped_begin_upload)
  then show b: "list_all (\<lambda>x. realPercent x \<le> 99) (butlast (transfer_states f v t s0))"
    by (simp add: list_all_iff raw_capped_def)
  have fin: "last (transfer_states f v t s0)
      = finish (outcome t) (file_size f) (fold on_tick (ticks t) (begin_upload f v (started t) s0))"
    by (simp add: transfer_states_def last_run_states)
  have cap: "raw_capped (fold on_tick (ticks t) (begin_upload f v (started t) s0))"
    by (intro raw_capped_fold raw_capped_begin_upload)
  show "realPercent (last (transfer_states f v t s0)) = 100 \<longleftrightarrow> outcome t \<noteq> NetError"
    using cap by (cases "outcome t") (auto simp: fin percent_finish raw_capped_def)
  show "list_all (\<lambda>x. realPercent x \<le> 99) (transfer_states f v t s0)" if "outcome t = NetError"
  proof -
    have "realPercent (last (transfer_states f v t s0)) \<le> 99"
      using cap that by (simp add: fin percent_finish raw_capped_def)
    with b have "list_all (\<lambda>x. realPercent x \<le> 99)
        (butlast (transfer_states f v t s0) @ [last (transfer_states f v t s0)])"
      by simp
    moreover have "transfer_states f v t s0
        = butlast (transfer_states f v t s0) @ [last (transfer_states f v t s0)]"
      unfolding transfer_states_def by (rule run_states_snoc)
    ultimately show ?thesis by metis
  qed
qed

theorem realPercent_progress_witness:
  "(0::nat) < 1000
   \<and> realPercent (on_progress 1000 1000 True 1000 page0) = 99
   \<and> outcome cut_off = NetError
   \<and> list_all (\<lambda>x. realPercent x \<le> 99) (transfer_states png False cut_off page0)
   \<and> realPercent (last (transfer_states png False two_steps page0)) = 100"
proof -
  have o: "outcome cut_off = NetError" "outcome two_steps \<noteq> NetError"
    by (simp_all add: cut_off_def two_steps_def)
  have "realPercent (on_progress 1000 1000 True 1000 page0)
      = min 99 (to_double (real_of_int (Math_round
          (to_double (to_double (real 1000 / real 1000) * 1000))) / 10))"
    using realPercent_progress [where c = True and tot = 1000 and loaded = 1000 and now = 1000
        and s = page0 and f = png and v = False and t = cut_off and ?s0.0 = page0]
    by simp
  then have p: "realPercent (on_progress 1000 1000 True 1000 page0) = 99"
    by (simp add: Math_round_def to_double_numeral)
  from o p realPercent_progress [where f = png and v = False and t = cut_off and ?s0.0 = page0]
    realPercent_progress [where f = png and v = False and t = two_steps and ?s0.0 = page0]
  show ?thesis by simp
qed

text \<open>
  Claim C3 as stated lets only the completion of a transfer take the raw percentage to
  100, and gives the percentage by a formula of exact numbers. A load with status 500,
  which the job reports through \<^verbatim>\<open>onError\<close>, takes it to 100 as well. And 201 of 400 bytes
  give 50.2, because the code's product is the double just below 502.5, where the exact
  formula gives 50.3.
\<close>

theorem realPercent_progress_counterexample:
  "realPercent (last (transfer_states png False (served 500 False) page0)) = 100
   \<and> \<not> accepted (outcome (served 500 False))
   \<and> job_log (Some (png, served 500 False)) None page0 = [Dispatch False, OnError]
   \<and> realPercent (on_progress 201 400 True 1000 page0) = to_double (502 / 10)
   \<and> to_double (502 / 10) < 5021 / 100
   \<and> min 99 (real_of_int (Math_round (201 / 400 * 1000)) / 10) = (503 / 10 :: real)"
proof -
  have a: "realPercent (last (transfer_states png False (served 500 False) page0)) = 100"
    by (simp add: transfer_states_def served_def finish_def xhr_onload_def call_onError_def
        showUploadProgress_def Let_def)
  have b: "\<not> accepted (outcome (served 500 False))"
    by (simp add: accepted_def served_def)
  have c: "job_log (Some (png, served 500 False)) None page0 = [Dispatch False, OnError]"
    by (simp add: job_log_def run_defs)
  have "realPercent (on_progress 201 400 True 1000 page0)
      = min 99 (to_double (real_of_int (Math_round (to_double (to_double (201 / 400) * 1000))) / 10))"
    by (simp add: realPercent_on_progress)
  then have d: "realPercent (on_progress 201 400 True 1000 page0) = to_double (502 / 10)"
    unfolding percent_201_400 double_50_2 by simp
  have e: "to_double (502 / 10) < 5021 / 100"
    unfolding double_50_2 by simp
  have f: "min 99 (real_of_int (Math_round (201 / 400 * 1000)) / 10) = (503 / 10 :: real)"
    by (simp add: Math_round_def)
  from a b c d e f show ?thesis by blast
qed





text \<open>
  Claim C5, amended. The error handler changes nothing of \<^verbatim>\<open>uploadState\<close> but
  \<^verbatim>\<open>active\<close>, which becomes false. The load handler with a status outside 200..299 also
  sets \<^verbatim>\<open>active\<close> to false, and it sets both percentages to 100 and both byte counts to
  the file size, as it does for every load. Either way \<^verbatim>\<open>onError\<close> is called once, and
  the state holds no reason.
\<close>

theorem failure_state:
  "uploadState.truncate (xhr_onerror (Some setBusy_false) s) = (uploadState.truncate s)\<lparr>active := False\<rparr>
   \<and> trace (xhr_onerror (Some setBusy_false) s) = trace s @ [OnError]
   \<and> (\<not> (200 \<le> status \<and> status < 300) \<longrightarrow>
         uploadState.truncate (xhr_onload fileSize status parses cb (Some setBusy_false) s)
           = (uploadState.truncate s)\<lparr>active := False, realPercent := 100, realLoaded := real fileSize,
                displayedPercent := 100, displayedLoaded := real fileSize\<rparr>
         \<and> trace (xhr_onload fileSize status parses cb (Some setBusy_false) s) = trace s @ [OnError])"
  by (simp add: xhr_onerror_def xhr_onload_def call_onError_def setBusy_false_def
      showUploadProgress_def uploadState.truncate_def Let_def)

theorem failure_state_witness:
  "\<not> (200 \<le> (500::int) \<and> (500::int) < 300)
   \<and> trace (xhr_onload 100 500 False done_cb (Some setBusy_false) page0) = trace page0 @ [OnError]
   \<and> uploadState.truncate (xhr_onload 100 500 False done_cb (Some setBusy_false) page0)
       = (uploadState.truncate page0)\<lparr>active := False, realPercent := 100, realLoaded := real 100,
            displayedPercent := 100, displayedLoaded := real 100\<rparr>"
  using failure_state [of page0 500 100 False done_cb] by simp

text \<open>
  Claim C5 as stated says that a failed transfer leaves the percentages alone. A load
  with status 500 right after the start of a transfer takes both from 0 to 100.
\<close>

theorem failure_state_counterexample:
  "realPercent (begin_upload png False 0 page0) = 0
   \<and> displayedPercent (begin_upload png False 0 page0) = 0
   \<and> realPercent (xhr_onload (file_size png) 500 False done_cb (Some setBusy_false) (begin_upload png False 0 page0)) = 100
   \<and> displayedPercent (xhr_onload (file_size png) 500 False done_cb (Some setBusy_false) (begin_upload png False 0 page0)) = 100
   \<and> trace (xhr_onload (file_size png) 500 False done_cb (Some setBusy_false) (begin_upload png False 0 page0))
       = [Dispatch False, OnError]"
  by (simp add: xhr_onload_def call_onError_def setBusy_false_def showUploadProgress_def
      begin_upload_def page0_def png_def Let_def)

lemma speed_string:
  "realSpeedStr (on_progress loaded tot c now s) =
     (let elapsed = to_double ((real now - real (lastTime s)) / 1000);
          speed = (if elapsed > to_double (5 / 100)
                   then to_double ((real loaded - lastLoaded s) / elapsed) else 0)
      in if speed > 0 then formatBytes (nat (Math_round speed)) @ [0x2F, 0x441] else [em_dash])"
  by (simp add: on_progress_def Let_def)

lemma elapsed_late:
  "to_double (5 / 100) < to_double ((real now - real (lastTime s)) / 1000)
     \<longleftrightarrow> 5 / 100 < (real now - real (lastTime s)) / 1000"
proof -
  have "real now - real (lastTime s) = real_of_int (int now - int (lastTime s))" by simp
  then show ?thesis
    using elapsed_threshold [of "int now - int (lastTime s)"]
    by (simp only:) (simp del: of_int_diff of_int_of_nat_eq)
qed

text \<open>
  Claim C4, amended. The code's comparison of the elapsed time with 0.05, both doubles,
  holds exactly when more than 50 ms have passed. Then the speed is the difference of the
  byte counts over the elapsed seconds, in double arithmetic, and the estimate shown is that
  speed rounded and formatted, or a dash if it is not positive. With 50 ms or less the
  speed is taken as 0 and the estimate shown becomes the dash. The previous byte count and
  time are replaced in both cases.
\<close>

theorem speed_estimate:
  "(let seconds = (real now - real (lastTime s)) / 1000;
        elapsed = to_double seconds;
        speed = to_double ((real loaded - lastLoaded s) / elapsed);
        s' = on_progress loaded tot c now s
    in (to_double (5 / 100) < elapsed \<longleftrightarrow> 5 / 100 < seconds)
       \<and> (seconds > 5 / 100 \<longrightarrow>
            realSpeedStr s' = (if speed > 0 then formatBytes (nat (Math_round speed)) @ [0x2F, 0x441]
                               else [em_dash]))
       \<and> (seconds \<le> 5 / 100 \<longrightarrow> realSpeedStr s' = [em_dash])
       \<and> lastLoaded s' = real loaded \<and> lastTime s' = now)"
proof -
  have f: "lastLoaded (on_progress loaded tot c now s) = real loaded"
    "lastTime (on_progress loaded tot c now s) = now"
    by (simp_all add: on_progress_def Let_def)
  show ?thesis
    unfolding Let_def speed_string elapsed_late f by simp
qed

lemma formatBytes_2048: "formatBytes 2048 = ascii ''2 '' @ [0x41A, 0x411]"
  by (simp add: formatBytes_number_part number_part_def unit_index_code compute_floorlog
      Math_round_def digits10.simps digit_def ascii_def dot_def space_def
      sizes_at_def sizes_def to_string_def)

lemma formatBytes_62: "formatBytes 62 = ascii ''62 '' @ [0x411]"
  by (simp add: formatBytes_number_part number_part_def unit_index_code compute_floorlog
      Math_round_def digits10.simps digit_def ascii_def dot_def space_def
      sizes_at_def sizes_def to_string_def)

lemma first_second_fields:
  "lastTime first_second = 1000" "lastLoaded first_second = 2048"
  "realSpeedStr first_second = ascii ''2 '' @ [0x41A, 0x411, 0x2F, 0x441]"
  by (simp_all add: first_second_def on_progress_def begin_upload_def showUploadProgress_def
      Let_def Math_round_def formatBytes_2048 to_double_20th to_double_numeral)

text \<open>
  Claim C4 as stated keeps the previous estimate when an event comes early. After an
  event that set the estimate to 2 KB per second, an event 10 ms later sets it to the
  dash.
\<close>

theorem speed_estimate_counterexample:
  "realSpeedStr first_second = ascii ''2 '' @ [0x41A, 0x411, 0x2F, 0x441]
   \<and> (real 1010 - real (lastTime first_second)) / 1000 \<le> 5 / 100
   \<and> realSpeedStr (on_progress 3000 4096 True 1010 first_second) = [em_dash]
   \<and> realSpeedStr (on_progress 3000 4096 True 1010 first_second) \<noteq> realSpeedStr first_second"
  by (simp add: first_second_fields speed_string Let_def ascii_def em_dash_def
      to_double_20th to_double_100th)

theorem speed_estimate_witness:
  "(real 272 - real (lastTime (begin_upload png False 0 page0))) / 1000 > 5 / 100
   \<and> realSpeedStr (on_progress 17 4096 True 272 (begin_upload png False 0 page0))
       = ascii ''62 '' @ [0x411, 0x2F, 0x441]
   \<and> (real 1010 - real (lastTime first_second)) / 1000 \<le> 5 / 100
   \<and> realSpeedStr (on_progress 3000 4096 True 1010 first_second) = [em_dash]"
proof -
  let ?s0 = "begin_upload png False 0 page0"
  have s0: "lastTime ?s0 = 0" "lastLoaded ?s0 = 0"
    by (simp_all add: begin_upload_def showUploadProgress_def Let_def)
  have a: "(real 272 - real (lastTime ?s0)) / 1000 > 5 / 100"
    and b: "(real 1010 - real (lastTime first_second)) / 1000 \<le> 5 / 100"
    by (simp_all add: first_second_fields s0)
  have el: "to_double ((real 272 - real (lastTime ?s0)) / 1000) = 1224979098644775 / 2 ^ 52"
    unfolding s0 by (subst to_double_eval [where e = "- 2"]) (simp_all add: pow2_def round_even_def)
  have sp: "to_double ((real 17 - lastLoaded ?s0) / (1224979098644775 / 2 ^ 52))
      = 8796093022207999 / 2 ^ 47"
    unfolding s0 by (subst to_double_eval [where e = 5]) (simp_all add: pow2_def round_even_def)
  have rd: "Math_round (8796093022207999 / 2 ^ 47) = 62"
    by (simp add: Math_round_def)
  from speed_estimate [of 272 ?s0 17 4096 True] a
  have "realSpeedStr (on_progress 17 4096 True 272 ?s0)
      = (if to_double ((real 17 - lastLoaded ?s0) / to_double ((real 272 - real (lastTime ?s0)) / 1000)) > 0
         then formatBytes (nat (Math_round (to_double ((real 17 - lastLoaded ?s0)
                / to_double ((real 272 - real (lastTime ?s0)) / 1000))))) @ [0x2F, 0x441]
         else [em_dash])"
    unfolding Let_def by blast
  then have r1: "realSpeedStr (on_progress 17 4096 True 272 ?s0) = ascii ''62 '' @ [0x411, 0x2F, 0x441]"
    unfolding el sp rd by (simp add: formatBytes_62)
  from speed_estimate [of 1010 first_second 3000 4096 True] b
  have r2: "realSpeedStr (on_progress 3000 4096 True 1010 first_second) = [em_dash]"
    unfolding Let_def by blast
  from a b r1 r2 show ?thesis by blast
qed

end
